theory Spec2Isabelle
  imports Main
begin

section \<open>Python string primitives\<close>

text \<open>
  A Python \<open>str\<close> is modelled as a \<open>string\<close>, one \<open>char\<close> per code point, so
  \<open>length\<close> is Python's \<open>len\<close> for text in the range U+0000 to U+00FF. The functions
  below are the \<open>str\<close> methods that \<open>linkfinder.py\<close> calls.
\<close>

text \<open>\<open>s.startswith(p)\<close> and \<open>s.endswith(p)\<close>.\<close>

definition startswith :: "string \<Rightarrow> string \<Rightarrow> bool" where
  "startswith s p = (take (length p) s = p)"

definition endswith :: "string \<Rightarrow> string \<Rightarrow> bool" where
  "endswith s p = (length p \<le> length s \<and> drop (length s - length p) s = p)"

text \<open>\<open>s.rstrip(c)\<close> for a single character \<open>c\<close>: every trailing \<open>c\<close> is removed.\<close>

definition rstrip :: "string \<Rightarrow> char \<Rightarrow> string" where
  "rstrip s c = rev (dropWhile (\<lambda>x. x = c) (rev s))"

text \<open>
  \<open>s.rfind(c)\<close>: the index of the last occurrence of \<open>c\<close>; Python's \<open>-1\<close> is \<open>None\<close>.
\<close>

definition rfind :: "string \<Rightarrow> char \<Rightarrow> nat option" where
  "rfind s c =
     (if c \<in> set s
      then Some (length s - 1 - length (takeWhile (\<lambda>x. x \<noteq> c) (rev s)))
      else None)"

text \<open>\<open>s.replace(old, new)\<close> for a single character \<open>old\<close>.\<close>

definition replace_char :: "string \<Rightarrow> char \<Rightarrow> string \<Rightarrow> string" where
  "replace_char s old new = concat (map (\<lambda>c. if c = old then new else [c]) s)"

text \<open>\<open>s.split(sep)\<close> for a single character \<open>sep\<close>; the result is never empty.\<close>

fun split :: "string \<Rightarrow> char \<Rightarrow> string list" where
  "split [] sep = [[]]"
| "split (c # cs) sep =
     (if c = sep then [] # split cs sep
      else (case split cs sep of
              [] \<Rightarrow> [[c]]
            | p # ps \<Rightarrow> (c # p) # ps))"

text \<open>\<open>sep.join(parts)\<close>.\<close>

fun join :: "string \<Rightarrow> string list \<Rightarrow> string" where
  "join sep [] = []"
| "join sep [p] = p"
| "join sep (p # ps) = p @ sep @ join sep ps"

text \<open>\<open>s.rsplit(c, 1)[0]\<close>: the text before the last \<open>c\<close>, all of \<open>s\<close> without one.\<close>

definition rsplit1_head :: "string \<Rightarrow> char \<Rightarrow> string" where
  "rsplit1_head s c = (case rfind s c of None \<Rightarrow> s | Some i \<Rightarrow> take i s)"

lemma rstrip_length: "length (rstrip s c) \<le> length s"
  using length_dropWhile_le [of "\<lambda>x. x = c" "rev s"] by (simp add: rstrip_def)

lemma rstrip_last: "rstrip s c \<noteq> [] \<Longrightarrow> last (rstrip s c) \<noteq> c"
proof -
  assume ne: "rstrip s c \<noteq> []"
  then have "dropWhile (\<lambda>x. x = c) (rev s) \<noteq> []" by (simp add: rstrip_def)
  then have "hd (dropWhile (\<lambda>x. x = c) (rev s)) \<noteq> c" by (rule hd_dropWhile)
  moreover have "last (rstrip s c) = hd (dropWhile (\<lambda>x. x = c) (rev s))"
    by (simp add: rstrip_def last_rev)
  ultimately show ?thesis by simp
qed

lemma takeWhile_neq_length:
  "c \<in> set xs \<Longrightarrow> length (takeWhile (\<lambda>x. x \<noteq> c) xs) < length xs"
  by (induction xs) auto

lemma rfind_not_last:
  assumes "rfind s c = Some i" and "s = [] \<or> last s \<noteq> c"
  shows "Suc i < length s"
proof -
  from assms(1) have mem: "c \<in> set s"
    and i: "i = length s - 1 - length (takeWhile (\<lambda>x. x \<noteq> c) (rev s))"
    by (auto simp: rfind_def split: if_splits)
  from mem have ne: "s \<noteq> []" by auto
  with assms(2) have "hd (rev s) \<noteq> c" by (simp add: hd_rev)
  moreover from ne have "rev s \<noteq> []" by simp
  ultimately have "0 < length (takeWhile (\<lambda>x. x \<noteq> c) (rev s))"
    by (cases "rev s") auto
  moreover have "length (takeWhile (\<lambda>x. x \<noteq> c) (rev s)) < length s"
    using takeWhile_neq_length [of c "rev s"] mem by simp
  ultimately show ?thesis using i by arith
qed

lemma rfind_rstrip_less:
  assumes "rfind (rstrip cur c) c = Some i"
  shows "Suc i < length (rstrip cur c)" and "i + 1 < length cur"
proof -
  show *: "Suc i < length (rstrip cur c)"
    using assms rstrip_last [of cur c] rfind_not_last [of "rstrip cur c" c i] by blast
  show "i + 1 < length cur"
    using * rstrip_length [of cur c] by simp
qed

section \<open>PathRebuilder: \<open>rebuild_paths\<close>\<close>

text \<open>
  The \<open>while True\<close> loop of \<open>rebuild_paths\<close> (lines 114 to 142). The list \<open>urls\<close> is
  returned in the order of the \<open>append\<close> calls; each \<open>break\<close> ends the list. The
  recursion is on \<open>current_url\<close>, which gets shorter at every turn.
\<close>

function rebuild_loop :: "string \<Rightarrow> string \<Rightarrow> string \<Rightarrow> string list" where
  "rebuild_loop base_url clean_path current_url =
     (let full_url = (if endswith current_url ''/'' then current_url @ clean_path
                      else current_url @ ''/'' @ clean_path) in
      if rstrip current_url CHR ''/'' = rstrip base_url CHR ''/'' then [full_url]
      else
        let current_url' = rstrip current_url CHR ''/'' in
        (case rfind current_url' CHR ''/'' of
           None \<Rightarrow> [full_url]
         | Some last_slash \<Rightarrow>
             let base_without_slash = rstrip base_url CHR ''/'';
                 next_url = take (last_slash + 1) current_url' in
             if length (rstrip next_url CHR ''/'') < length base_without_slash then [full_url]
             else full_url # rebuild_loop base_url clean_path next_url))"
  by pat_completeness auto
termination
proof (relation "measure (\<lambda>(b, p, cur). length cur)", goal_cases)
  case 1
  show ?case by simp
next
  case (2 base_url clean_path current_url full_url cur' last_slash bws next_url)
  then have "last_slash + 1 < length current_url"
    using rfind_rstrip_less(2) [of current_url "CHR ''/''" last_slash] by simp
  with 2 show ?case by simp
qed

declare rebuild_loop.simps [simp del]

text \<open>The cleaning of the relative path at the head of \<open>rebuild_paths\<close> (lines 105 to 109).\<close>

definition clean_relative :: "string \<Rightarrow> string" where
  "clean_relative relative_path =
     (if startswith relative_path ''./'' then drop 2 relative_path
      else if startswith relative_path ''.'' then drop 1 relative_path
      else relative_path)"

definition rebuild_paths :: "string \<Rightarrow> string \<Rightarrow> string \<Rightarrow> string list" where
  "rebuild_paths base_url js_dir_url relative_path =
     (let clean_path = clean_relative relative_path
      in rebuild_loop base_url clean_path js_dir_url)"

section \<open>The rebuild file: \<open>write_path_rebuild_file\<close>\<close>

text \<open>
  What \<open>write_path_rebuild_file\<close> does to one extracted path before it calls
  \<open>rebuild_paths\<close> (lines 253 to 261): spaces are removed, then one leading \<open>./\<close>,
  \<open>../\<close> or \<open>.\<close>.
\<close>

definition clean_candidate :: "string \<Rightarrow> string" where
  "clean_candidate path =
     (let clean_path = replace_char path CHR '' '' [] in
      if startswith clean_path ''./'' then drop 2 clean_path
      else if startswith clean_path ''../'' then drop 3 clean_path
      else if startswith clean_path ''.'' then drop 1 clean_path
      else clean_path)"

text \<open>
  The lines written for one path (lines 251 to 265): only a path that starts with a dot
  is rebuilt.
\<close>

definition rebuild_candidate :: "string \<Rightarrow> string \<Rightarrow> string \<Rightarrow> string list" where
  "rebuild_candidate base_url js_dir_url path =
     (if startswith path ''.'' then rebuild_paths base_url js_dir_url (clean_candidate path)
      else [])"

section \<open>The directory levels of the climb\<close>

text \<open>
  The join of lines 116 to 119: \<open>current_url\<close> and \<open>clean_path\<close>, with a \<open>/\<close> added when
  \<open>current_url\<close> does not end with one.
\<close>

definition join_url :: "string \<Rightarrow> string \<Rightarrow> string" where
  "join_url current_url clean_path =
     (if endswith current_url ''/'' then current_url @ clean_path
      else current_url @ ''/'' @ clean_path)"

text \<open>
  One turn of the loop after the \<open>append\<close> (lines 124 to 142): \<open>None\<close> is a
  \<open>break\<close>, \<open>Some next_url\<close> the value \<open>current_url\<close> takes for the next turn.
\<close>

definition climb :: "string \<Rightarrow> string \<Rightarrow> string option" where
  "climb base_url current_url =
     (if rstrip current_url CHR ''/'' = rstrip base_url CHR ''/'' then None
      else (case rfind (rstrip current_url CHR ''/'') CHR ''/'' of
              None \<Rightarrow> None
            | Some last_slash \<Rightarrow>
                let next_url = take (last_slash + 1) (rstrip current_url CHR ''/'') in
                if length (rstrip next_url CHR ''/'') < length (rstrip base_url CHR ''/'')
                then None else Some next_url))"

lemma climb_shorter: "climb b cur = Some n \<Longrightarrow> length n < length cur"
  using rfind_rstrip_less(2) [of cur "CHR ''/''"]
  by (auto simp: climb_def Let_def split: if_splits option.splits)

text \<open>The values \<open>current_url\<close> takes, one for each turn of the loop.\<close>

function climb_dirs :: "string \<Rightarrow> string \<Rightarrow> string list" where
  "climb_dirs base_url current_url =
     current_url # (case climb base_url current_url of
                      None \<Rightarrow> []
                    | Some next_url \<Rightarrow> climb_dirs base_url next_url)"
  by pat_completeness auto
termination
  by (relation "measure (\<lambda>(b, cur). length cur)") (auto simp: climb_shorter)

declare climb_dirs.simps [simp del]

lemma rebuild_loop_unfold:
  "rebuild_loop b p cur =
     join_url cur p # (case climb b cur of None \<Rightarrow> [] | Some n \<Rightarrow> rebuild_loop b p n)"
  by (subst rebuild_loop.simps) (simp add: join_url_def climb_def Let_def split: option.splits)

lemma rebuild_loop_map:
  "rebuild_loop b p cur = map (\<lambda>d. join_url d p) (climb_dirs b cur)"
proof (induction b cur rule: climb_dirs.induct)
  case (1 b cur)
  show ?case
  proof (cases "climb b cur")
    case None
    then show ?thesis
      by (subst rebuild_loop_unfold, subst climb_dirs.simps) simp
  next
    case (Some n)
    with 1 show ?thesis
      by (subst rebuild_loop_unfold, subst climb_dirs.simps) simp
  qed
qed

lemma climb_dirs_unfold:
  "climb_dirs b d = d # (case climb b d of None \<Rightarrow> [] | Some n \<Rightarrow> climb_dirs b n)"
  by (subst climb_dirs.simps) simp

lemma climb_dirs_None: "climb b d = None \<Longrightarrow> climb_dirs b d = [d]"
  by (subst climb_dirs.simps) simp

lemma climb_dirs_Some: "climb b d = Some n \<Longrightarrow> climb_dirs b d = d # climb_dirs b n"
  by (subst climb_dirs.simps) simp

lemma rebuild_paths_map:
  "rebuild_paths b d c = map (\<lambda>cur. join_url cur (clean_relative c)) (climb_dirs b d)"
  by (simp add: rebuild_paths_def rebuild_loop_map)

lemma endswith_single: "endswith s [c] \<longleftrightarrow> s \<noteq> [] \<and> last s = c"
proof (cases s rule: rev_cases)
  case Nil
  then show ?thesis by (simp add: endswith_def)
next
  case (snoc ys y)
  then show ?thesis by (auto simp: endswith_def)
qed

lemma takeWhile_eq_replicate:
  "takeWhile (\<lambda>x. x = c) xs = replicate (length (takeWhile (\<lambda>x. x = c) xs)) c"
  by (induction xs) auto

lemma rstrip_decomp: "s = rstrip s c @ replicate (length s - length (rstrip s c)) c"
proof -
  let ?t = "takeWhile (\<lambda>x. x = c) (rev s)"
  let ?d = "dropWhile (\<lambda>x. x = c) (rev s)"
  have "rev s = ?t @ ?d" by simp
  then have "rev (rev s) = rev (?t @ ?d)" by (rule arg_cong)
  then have s: "s = rev ?d @ rev ?t" by (simp only: rev_rev_ident rev_append)
  have "length s = length (rev ?d) + length (rev ?t)"
    by (subst s) (simp only: length_append)
  then have len: "length ?t = length s - length (rstrip s c)" by (simp add: rstrip_def)
  have "rev ?t = replicate (length ?t) c"
    by (subst takeWhile_eq_replicate) simp
  with s len show ?thesis by (simp add: rstrip_def)
qed

lemma not_endswith_rstrip: "\<not> endswith (rstrip s c) [c]"
  using rstrip_last [of s c] by (auto simp: endswith_single)

lemma join_url_trimmed:
  assumes "length d \<le> Suc (length (rstrip d CHR ''/''))"
  shows "join_url d p = rstrip d CHR ''/'' @ ''/'' @ p"
proof -
  let ?t = "rstrip d CHR ''/''"
  let ?k = "length d - length ?t"
  have d: "d = ?t @ replicate ?k CHR ''/''" by (rule rstrip_decomp)
  from assms have "?k = 0 \<or> ?k = 1" by arith
  then show ?thesis
  proof
    assume "?k = 0"
    with d have "d = ?t" by simp
    then have "\<not> endswith d ''/''" using not_endswith_rstrip [of d "CHR ''/''"] by simp
    with \<open>d = ?t\<close> show ?thesis by (simp add: join_url_def)
  next
    assume "?k = 1"
    with d have eq: "d = ?t @ ''/''" by simp
    have "endswith (?t @ ''/'') ''/''" by (simp add: endswith_single)
    then have "endswith d ''/''" by (subst eq)
    then have "join_url d p = d @ p" by (simp add: join_url_def)
    also have "\<dots> = (?t @ ''/'') @ p" using eq by simp
    finally show ?thesis by simp
  qed
qed

lemma climb_None_same: "rstrip d CHR ''/'' = rstrip b CHR ''/'' \<Longrightarrow> climb b d = None"
  by (simp add: climb_def)

lemma climb_not_below: "climb b cur = Some n \<Longrightarrow> length (rstrip b CHR ''/'') \<le> length (rstrip n CHR ''/'')"
  by (auto simp: climb_def Let_def split: if_splits option.splits)

lemma climb_dirs_not_below:
  "length (rstrip b CHR ''/'') \<le> length (rstrip cur CHR ''/'') \<Longrightarrow>
   x \<in> set (climb_dirs b cur) \<Longrightarrow> length (rstrip b CHR ''/'') \<le> length (rstrip x CHR ''/'')"
proof (induction b cur rule: climb_dirs.induct)
  case (1 b cur)
  show ?case
  proof (cases "climb b cur")
    case None
    with 1 show ?thesis by (simp add: climb_dirs_None)
  next
    case (Some n)
    with 1 show ?thesis using climb_not_below [OF Some]
      by (auto simp: climb_dirs_Some)
  qed
qed

lemma climb_dirs_length: "length (climb_dirs b cur) \<le> Suc (length cur)"
proof (induction b cur rule: climb_dirs.induct)
  case (1 b cur)
  show ?case
  proof (cases "climb b cur")
    case None
    then show ?thesis by (simp add: climb_dirs_None)
  next
    case (Some n)
    with 1 have "length (climb_dirs b n) \<le> Suc (length n)" by simp
    with climb_shorter [OF Some] show ?thesis by (simp add: climb_dirs_Some [OF Some])
  qed
qed

lemma climb_dirs_nonempty: "climb_dirs b cur \<noteq> []"
  by (subst climb_dirs.simps) simp

lemmas str_eval = startswith_def endswith_def rstrip_def rfind_def replace_char_def
  join_url_def climb_def clean_relative_def clean_candidate_def Let_def

lemma replace_char_del: "replace_char s c [] = filter (\<lambda>x. x \<noteq> c) s"
  by (induction s) (auto simp: replace_char_def)

lemma startswith_dot: "startswith s ''.'' \<longleftrightarrow> (\<exists>t. s = CHR ''.'' # t)"
  by (cases s) (auto simp: startswith_def)

lemma clean_candidate_subset: "set (clean_candidate p) \<subseteq> set p - {CHR '' ''}"
  using set_drop_subset [of _ "filter (\<lambda>x. x \<noteq> CHR '' '') p"]
  by (auto simp: clean_candidate_def replace_char_del Let_def)

lemma clean_relative_subset: "set (clean_relative p) \<subseteq> set p"
  using set_drop_subset [of _ p] by (auto simp: clean_relative_def)

lemma rstrip_subset: "set (rstrip s c) \<subseteq> set s"
  using set_dropWhileD [of _ "\<lambda>x. x = c" "rev s"] by (auto simp: rstrip_def)

lemma climb_subset: "climb b cur = Some n \<Longrightarrow> set n \<subseteq> set cur"
  using rstrip_subset [of cur "CHR ''/''"] set_take_subset [of _ "rstrip cur CHR ''/''"]
  by (auto simp: climb_def Let_def split: if_splits option.splits)

lemma climb_dirs_subset: "x \<in> set (climb_dirs b cur) \<Longrightarrow> set x \<subseteq> set cur"
proof (induction b cur rule: climb_dirs.induct)
  case (1 b cur)
  show ?case
  proof (cases "climb b cur")
    case None
    with 1 show ?thesis by (simp add: climb_dirs_None)
  next
    case (Some n)
    with 1 climb_subset [OF Some] show ?thesis
      by (auto simp: climb_dirs_Some)
  qed
qed

lemma join_url_set: "set (join_url d p) \<subseteq> set d \<union> {CHR ''/''} \<union> set p"
  by (auto simp: join_url_def)

section \<open>Properties of the path rebuilder\<close>

text \<open>
  Claim C1, as stated: the candidate \<open>../api/data.json\<close> is cleaned to
  \<open>/api/data.json\<close> and, for the base \<open>https://example.com/\<close> and the directory
  \<open>https://example.com/app/js/\<close>, rebuilt to the three joins of \<open>api/data.json\<close> with
  \<open>app/js/\<close>, \<open>app/\<close> and the base. The cleaned form is not the one the code
  computes: neither cleaning step yields \<open>/api/data.json\<close>, rebuilding
  \<open>/api/data.json\<close> gives URLs with a doubled slash, and \<open>rebuild_paths\<close> alone, given
  \<open>../api/data.json\<close>, removes one dot only and gives URLs that hold \<open>./\<close>.
\<close>

theorem rebuild_parent_dir_cleaning_counterexample:
  "clean_candidate ''../api/data.json'' \<noteq> ''/api/data.json''
   \<and> clean_relative ''../api/data.json'' \<noteq> ''/api/data.json''
   \<and> rebuild_paths ''https://example.com/'' ''https://example.com/app/js/'' ''/api/data.json''
       = [''https://example.com/app/js//api/data.json'',
          ''https://example.com/app//api/data.json'',
          ''https://example.com//api/data.json'']
   \<and> rebuild_paths ''https://example.com/'' ''https://example.com/app/js/'' ''../api/data.json''
       = [''https://example.com/app/js/./api/data.json'',
          ''https://example.com/app/./api/data.json'',
          ''https://example.com/./api/data.json'']"
  by (simp add: rebuild_paths_def rebuild_loop_unfold str_eval)

text \<open>
  Claim C1, amended: \<open>write_path_rebuild_file\<close> cleans \<open>../api/data.json\<close> to
  \<open>api/data.json\<close> (the leading \<open>../\<close> is removed), and the URLs it writes for this
  candidate are exactly the three of the claim, in that order, the join with the base last.
\<close>

theorem rebuild_parent_dir_example:
  "clean_candidate ''../api/data.json'' = ''api/data.json''
   \<and> rebuild_candidate ''https://example.com/'' ''https://example.com/app/js/'' ''../api/data.json''
       = [''https://example.com/app/js/api/data.json'',
          ''https://example.com/app/api/data.json'',
          ''https://example.com/api/data.json'']"
  by (simp add: rebuild_candidate_def rebuild_paths_def rebuild_loop_unfold str_eval)

text \<open>
  Claim C2, as stated: when the base URL and the directory URL are equal once their
  trailing slashes are trimmed, \<open>rebuild_paths\<close> returns exactly one URL, the join of the
  directory URL with the cleaned candidate by exactly one \<open>/\<close>. The result is one URL, but
  the join of lines 116 to 119 only adds a \<open>/\<close> when the directory URL does not end with
  one; it removes none. A directory URL that ends with two slashes, or a cleaned candidate
  that begins with one, gives a URL with a doubled slash.
\<close>

theorem rebuild_single_at_base_double_slash_counterexample:
  "rstrip ''https://site.example//'' CHR ''/'' = rstrip ''https://site.example/'' CHR ''/''
   \<and> rebuild_paths ''https://site.example/'' ''https://site.example//'' ''./config/settings.json''
       = [''https://site.example//config/settings.json'']
   \<and> rebuild_paths ''https://site.example/'' ''https://site.example/'' ''/api/health''
       = [''https://site.example//api/health'']"
  by (simp add: rebuild_paths_def rebuild_loop_unfold str_eval)

text \<open>
  Claim C2, amended: when the base URL and the directory URL are equal once their trailing
  slashes are trimmed, \<open>rebuild_paths\<close> returns exactly one URL, the directory URL followed
  by the cleaned candidate, with a \<open>/\<close> added between them only when the directory URL does
  not end with one. When the directory URL has at most one trailing slash, this URL is the
  slash-trimmed directory URL (which does not end with \<open>/\<close>), one \<open>/\<close>, and the cleaned
  candidate.
\<close>

theorem rebuild_single_at_base:
  assumes "rstrip js_dir_url CHR ''/'' = rstrip base_url CHR ''/''"
  shows "rebuild_paths base_url js_dir_url relative_path
           = [join_url js_dir_url (clean_relative relative_path)]
         \<and> (length js_dir_url \<le> Suc (length (rstrip js_dir_url CHR ''/'')) \<longrightarrow>
               join_url js_dir_url (clean_relative relative_path)
                 = rstrip js_dir_url CHR ''/'' @ ''/'' @ clean_relative relative_path
               \<and> \<not> endswith (rstrip js_dir_url CHR ''/'') ''/'')"
  using assms not_endswith_rstrip [of js_dir_url "CHR ''/''"]
  by (simp add: rebuild_paths_map climb_dirs_None climb_None_same join_url_trimmed)

theorem rebuild_single_at_base_witness:
  "rstrip ''https://site.example/'' CHR ''/'' = rstrip ''https://site.example/'' CHR ''/''
   \<and> length ''https://site.example/'' \<le> Suc (length (rstrip ''https://site.example/'' CHR ''/''))
   \<and> rebuild_paths ''https://site.example/'' ''https://site.example/'' ''./config/settings.json''
       = [''https://site.example/config/settings.json'']
   \<and> join_url ''https://site.example/'' (clean_relative ''./config/settings.json'')
       = ''https://site.example'' @ ''/'' @ ''config/settings.json''"
  using rebuild_single_at_base [of "''https://site.example/''" "''https://site.example/''" "''./config/settings.json''"]
  by (simp add: str_eval)

text \<open>
  Claim C3: when the directory URL, slash-trimmed, is at least as long as the base URL,
  slash-trimmed, every URL of the result is the join of the cleaned candidate with a
  directory level whose slash-trimmed length is at least that of the base URL.
\<close>

theorem rebuild_not_above_base:
  assumes "length (rstrip base_url CHR ''/'') \<le> length (rstrip js_dir_url CHR ''/'')"
  shows "rebuild_paths base_url js_dir_url relative_path
           = map (\<lambda>cur. join_url cur (clean_relative relative_path)) (climb_dirs base_url js_dir_url)
         \<and> (\<forall>cur \<in> set (climb_dirs base_url js_dir_url).
               length (rstrip base_url CHR ''/'') \<le> length (rstrip cur CHR ''/''))"
  using assms climb_dirs_not_below by (simp add: rebuild_paths_map)

theorem rebuild_not_above_base_witness:
  "length (rstrip ''https://example.com/'' CHR ''/'') \<le> length (rstrip ''https://example.com/app/js/'' CHR ''/'')
   \<and> climb_dirs ''https://example.com/'' ''https://example.com/app/js/''
       = [''https://example.com/app/js/'', ''https://example.com/app/'', ''https://example.com/'']
   \<and> rebuild_paths ''https://example.com/'' ''https://example.com/app/js/'' ''./x.js''
       = [''https://example.com/app/js/x.js'', ''https://example.com/app/x.js'', ''https://example.com/x.js'']
   \<and> length (rstrip ''https://example.com/'' CHR ''/'') \<le> length (rstrip ''https://example.com/'' CHR ''/'')"
proof -
  have dirs: "climb_dirs ''https://example.com/'' ''https://example.com/app/js/''
       = [''https://example.com/app/js/'', ''https://example.com/app/'', ''https://example.com/'']"
    by (simp add: climb_dirs_unfold str_eval)
  have h: "length (rstrip ''https://example.com/'' CHR ''/'') \<le> length (rstrip ''https://example.com/app/js/'' CHR ''/'')"
    by (simp add: str_eval)
  from rebuild_not_above_base [OF h, of "''./x.js''"] dirs show ?thesis
    by (simp add: str_eval)
qed

text \<open>
  Claim C4: for all three input strings the loop of \<open>rebuild_paths\<close> ends (the function
  is total, its recursion decreasing the length of \<open>current_url\<close>), it makes at most
  \<open>len(js_dir_url) + 1\<close> turns, one URL for each, and the result is not empty.
\<close>

theorem rebuild_terminates_nonempty:
  "rebuild_paths base_url js_dir_url relative_path \<noteq> []
   \<and> length (rebuild_paths base_url js_dir_url relative_path) \<le> Suc (length js_dir_url)"
  by (simp add: rebuild_paths_map climb_dirs_nonempty climb_dirs_length)

text \<open>
  Claim C10: for a candidate that starts with a dot, the spaces are removed before the
  prefix is stripped: the URLs written are those of the candidate with its spaces
  deleted, each is the join of a directory level with a cleaned candidate that holds no
  space, and so no URL holds a space unless the directory URL does.
\<close>

theorem rebuild_candidate_drops_spaces:
  assumes "startswith path ''.''"
  shows "rebuild_candidate base_url js_dir_url path
           = rebuild_candidate base_url js_dir_url (replace_char path CHR '' '' [])
         \<and> rebuild_candidate base_url js_dir_url path
           = map (\<lambda>cur. join_url cur (clean_relative (clean_candidate path)))
               (climb_dirs base_url js_dir_url)
         \<and> CHR '' '' \<notin> set (clean_relative (clean_candidate path))
         \<and> (CHR '' '' \<notin> set js_dir_url \<longrightarrow>
              (\<forall>url \<in> set (rebuild_candidate base_url js_dir_url path). CHR '' '' \<notin> set url))"
proof -
  from assms obtain t where p: "path = CHR ''.'' # t" by (auto simp: startswith_dot)
  have sw: "startswith (replace_char path CHR '' '' []) ''.''"
    by (simp add: p replace_char_del startswith_dot)
  have cc: "clean_candidate (replace_char path CHR '' '' []) = clean_candidate path"
    by (simp add: clean_candidate_def replace_char_del)
  have nosp: "CHR '' '' \<notin> set (clean_relative (clean_candidate path))"
    using clean_relative_subset [of "clean_candidate path"] clean_candidate_subset [of path]
    by auto
  have mp: "rebuild_candidate base_url js_dir_url path
           = map (\<lambda>cur. join_url cur (clean_relative (clean_candidate path)))
               (climb_dirs base_url js_dir_url)"
    using assms by (simp add: rebuild_candidate_def rebuild_paths_map)
  have "CHR '' '' \<notin> set url"
    if d: "CHR '' '' \<notin> set js_dir_url" and u: "url \<in> set (rebuild_candidate base_url js_dir_url path)"
    for url
  proof -
    from u mp obtain cur where cur: "cur \<in> set (climb_dirs base_url js_dir_url)"
      and url: "url = join_url cur (clean_relative (clean_candidate path))" by auto
    from climb_dirs_subset [OF cur] d have "CHR '' '' \<notin> set cur" by auto
    with nosp join_url_set [of cur "clean_relative (clean_candidate path)"] url
    show ?thesis by auto
  qed
  with sw cc nosp mp assms show ?thesis
    by (simp add: rebuild_candidate_def)
qed

theorem rebuild_candidate_drops_spaces_witness:
  "startswith ''./a b/c .js'' ''.''
   \<and> rebuild_candidate ''https://example.com/'' ''https://example.com/app/'' ''./a b/c .js''
       = rebuild_candidate ''https://example.com/'' ''https://example.com/app/'' ''./ab/c.js''
   \<and> rebuild_candidate ''https://example.com/'' ''https://example.com/app/'' ''./a b/c .js''
       = [''https://example.com/app/ab/c.js'', ''https://example.com/ab/c.js'']"
proof -
  have h: "startswith ''./a b/c .js'' ''.''" by (simp add: startswith_def)
  have r: "replace_char ''./a b/c .js'' CHR '' '' [] = ''./ab/c.js''" by (simp add: replace_char_def)
  have e: "rebuild_candidate ''https://example.com/'' ''https://example.com/app/'' ''./ab/c.js''
       = [''https://example.com/app/ab/c.js'', ''https://example.com/ab/c.js'']"
    by (simp add: rebuild_candidate_def rebuild_paths_def rebuild_loop_unfold str_eval)
  from rebuild_candidate_drops_spaces [OF h, of "''https://example.com/''" "''https://example.com/app/''"] r e h
  show ?thesis by simp
qed

section \<open>The patterns given to \<open>re.match\<close>\<close>

text \<open>
  The patterns that \<open>linkfinder.py\<close> gives to \<open>re.match\<close> are sequences of character
  classes, each taken once (\<open>Chr\<close>) or \<open>n\<close> times or more (\<open>Rep\<close>, the quantifiers \<open>+\<close>
  and \<open>{n,}\<close>). \<open>re_full\<close> holds when the whole string is such a sequence; it tries
  every way to cut the string, as the backtracking of \<open>re\<close> does.
\<close>

datatype token = Chr "char \<Rightarrow> bool" | Rep "char \<Rightarrow> bool" nat

fun re_full :: "token list \<Rightarrow> string \<Rightarrow> bool" where
  "re_full [] s = (s = [])"
| "re_full (Chr P # r) [] = False"
| "re_full (Chr P # r) (c # cs) = (P c \<and> re_full r cs)"
| "re_full (Rep P n # r) [] = (n = 0 \<and> re_full r [])"
| "re_full (Rep P n # r) (c # cs) =
     ((n = 0 \<and> re_full r (c # cs)) \<or> (P c \<and> re_full (Rep P (n - 1) # r) cs))"

text \<open>
  \<open>re.match\<close> of a pattern written between \<open>^\<close> and \<open>$\<close>: without \<open>re.MULTILINE\<close>, \<open>$\<close>
  matches at the end of the string and also before a newline that ends the string.
\<close>

definition re_match :: "token list \<Rightarrow> string \<Rightarrow> bool" where
  "re_match pattern s =
     (re_full pattern s \<or> (s \<noteq> [] \<and> last s = CHR 0x0A \<and> re_full pattern (butlast s)))"

definition ascii_lower :: "char \<Rightarrow> bool" where
  "ascii_lower c = (c \<in> set ''abcdefghijklmnopqrstuvwxyz'')"

definition ascii_upper :: "char \<Rightarrow> bool" where
  "ascii_upper c = (c \<in> set ''ABCDEFGHIJKLMNOPQRSTUVWXYZ'')"

definition ascii_digit :: "char \<Rightarrow> bool" where
  "ascii_digit c = (c \<in> set ''0123456789'')"

section \<open>OriginResolver: \<open>extract_base_url_from_path\<close>\<close>

text \<open>The pattern \<^verbatim>\<open>^[a-zA-Z0-9.-]+\.[a-zA-Z]{2,}$\<close> of line 80.\<close>

definition domain_pattern :: "token list" where
  "domain_pattern =
     [Rep (\<lambda>c. ascii_lower c \<or> ascii_upper c \<or> ascii_digit c \<or> c = CHR ''.'' \<or> c = CHR ''-'') 1,
      Chr (\<lambda>c. c = CHR ''.''),
      Rep (\<lambda>c. ascii_lower c \<or> ascii_upper c) 2]"

text \<open>The test of line 80 on one part of the path.\<close>

definition looks_like_domain :: "string \<Rightarrow> bool" where
  "looks_like_domain part = (CHR ''.'' \<in> set part \<and> re_match domain_pattern part)"

text \<open>
  The \<open>for\<close> loop of lines 78 to 85: the first part that passes the test is the domain,
  and the parts after it, joined by \<open>/\<close>, are the relative path (empty when the domain
  is the last part).
\<close>

fun find_domain :: "string list \<Rightarrow> (string \<times> string) option" where
  "find_domain [] = None"
| "find_domain (part # rest) =
     (if looks_like_domain part
      then Some (part, if rest \<noteq> [] then join ''/'' rest else [])
      else find_domain rest)"

text \<open>
  \<open>extract_base_url_from_path\<close>: \<open>None\<close> stands for the pair \<open>(None, None)\<close>. The
  character \<open>0x5C\<close> is the backslash.
\<close>

definition extract_base_url_from_path :: "string \<Rightarrow> (string \<times> string) option" where
  "extract_base_url_from_path js_file_path =
     (let normalized_path = replace_char js_file_path (CHR 0x5C) ''/'';
          parts = split normalized_path CHR ''/''
      in case find_domain parts of
           None \<Rightarrow> None
         | Some (domain, js_relative_path) \<Rightarrow>
             if domain \<noteq> [] then
               let base_url = ''https://'' @ domain @ ''/'';
                   js_full_url = ''https://'' @ domain @ ''/'' @ js_relative_path;
                   js_dir_url = rsplit1_head js_full_url CHR ''/'' @ ''/''
               in Some (base_url, js_dir_url)
             else None)"

lemmas origin_eval = extract_base_url_from_path_def looks_like_domain_def re_match_def
  domain_pattern_def ascii_lower_def ascii_upper_def ascii_digit_def replace_char_def
  rsplit1_head_def rfind_def Let_def

lemma re_full_Rep_drop:
  "re_full (Rep P n # r) s \<Longrightarrow> \<exists>k. re_full r (drop k s)"
proof (induction s arbitrary: n)
  case Nil
  then show ?case by simp
next
  case (Cons c cs)
  from Cons.prems consider "re_full r (c # cs)" | "re_full (Rep P (n - 1) # r) cs"
    by auto
  then show ?case
  proof cases
    case 1
    then have "re_full r (drop 0 (c # cs))" by simp
    then show ?thesis by blast
  next
    case 2
    from Cons.IH [OF 2] obtain k where "re_full r (drop k cs)" by blast
    then have "re_full r (drop (Suc k) (c # cs))" by simp
    then show ?thesis by blast
  qed
qed

lemma re_full_Chr_hd: "re_full (Chr P # r) s \<Longrightarrow> s \<noteq> [] \<and> P (hd s)"
  by (cases s) simp_all

lemma domain_pattern_has_dot:
  assumes "re_full domain_pattern s"
  shows "CHR ''.'' \<in> set s"
proof -
  from assms obtain k where
    "re_full [Chr (\<lambda>c. c = CHR ''.''), Rep (\<lambda>c. ascii_lower c \<or> ascii_upper c) 2] (drop k s)"
    unfolding domain_pattern_def using re_full_Rep_drop by blast
  then have "drop k s \<noteq> []" and "hd (drop k s) = CHR ''.''"
    using re_full_Chr_hd by blast+
  then have "CHR ''.'' \<in> set (drop k s)" using hd_in_set by metis
  then show ?thesis by (rule in_set_dropD)
qed

lemma full_match_looks_like_domain: "re_full domain_pattern s \<Longrightarrow> looks_like_domain s"
  by (simp add: looks_like_domain_def re_match_def domain_pattern_has_dot)

lemma split_nonempty: "split s sep \<noteq> []"
  by (induction s) (auto split: list.splits)

lemma find_domain_last:
  assumes "parts \<noteq> []" and "\<forall>part \<in> set (butlast parts). \<not> looks_like_domain part"
    and "looks_like_domain (last parts)"
  shows "find_domain parts = Some (last parts, [])"
  using assms
proof (induction parts)
  case Nil
  then show ?case by simp
next
  case (Cons p ps)
  show ?case
  proof (cases "ps = []")
    case True
    with Cons.prems show ?thesis by simp
  next
    case False
    with Cons.prems have "\<not> looks_like_domain p" by simp
    moreover from False Cons have "find_domain ps = Some (last ps, [])" by simp
    ultimately show ?thesis using False by simp
  qed
qed

lemma rfind_snoc: "rfind (xs @ [c]) c = Some (length xs)"
  by (simp add: rfind_def)

lemma rsplit1_head_snoc: "rsplit1_head (xs @ [c]) c = xs"
  by (simp add: rsplit1_head_def rfind_snoc)

section \<open>Properties of the origin resolver\<close>

text \<open>
  Claim C7: for the file path \<open>results/js_files/example.com/app/main.js\<close> the base URL
  is \<open>https://example.com/\<close> and the directory URL is \<open>https://example.com/app/\<close>.
\<close>

theorem origin_of_example_path: "extract_base_url_from_path ''results/js_files/example.com/app/main.js''
   = Some (''https://example.com/'', ''https://example.com/app/'')"
  by (simp add: origin_eval)

text \<open>
  Claim C9: when no part of the path before the last passes the domain test and the last
  part (the file name) fully matches \<^verbatim>\<open>[a-zA-Z0-9.-]+\.[a-zA-Z]{2,}\<close>, the resolution
  does not fail: the file name is taken as the domain, and the base URL and the directory
  URL are both \<open>https://\<close>, the file name and \<open>/\<close>.
\<close>

theorem origin_from_filename:
  assumes "parts = split (replace_char js_file_path (CHR 0x5C) ''/'') CHR ''/''"
    and "\<forall>part \<in> set (butlast parts). \<not> looks_like_domain part"
    and "re_full domain_pattern (last parts)"
  shows "extract_base_url_from_path js_file_path
           = Some (''https://'' @ last parts @ ''/'', ''https://'' @ last parts @ ''/'')"
proof -
  have ld: "looks_like_domain (last parts)"
    using assms(3) by (rule full_match_looks_like_domain)
  have ne: "parts \<noteq> []" using assms(1) split_nonempty by simp
  have fd: "find_domain parts = Some (last parts, [])"
    using ne assms(2) ld by (rule find_domain_last)
  have nonempty: "last parts \<noteq> []"
    using ld by (auto simp: looks_like_domain_def)
  have "rsplit1_head ((''https://'' @ last parts) @ ''/'') CHR ''/'' = ''https://'' @ last parts"
    by (rule rsplit1_head_snoc)
  then have rs: "rsplit1_head (''https://'' @ last parts @ ''/'') CHR ''/'' = ''https://'' @ last parts"
    by simp
  show ?thesis
    using fd nonempty rs assms(1)
    by (simp add: extract_base_url_from_path_def Let_def)
qed

theorem origin_from_filename_witness:
  "extract_base_url_from_path ''out/bundle.js'' = Some (''https://bundle.js/'', ''https://bundle.js/'')
   \<and> split (replace_char ''out/bundle.js'' (CHR 0x5C) ''/'') CHR ''/'' = [''out'', ''bundle.js'']
   \<and> \<not> looks_like_domain ''out'' \<and> re_full domain_pattern ''bundle.js''"
proof -
  have p: "split (replace_char ''out/bundle.js'' (CHR 0x5C) ''/'') CHR ''/'' = [''out'', ''bundle.js'']"
    by (simp add: replace_char_def)
  have d: "\<forall>part \<in> set (butlast [''out'', ''bundle.js'']). \<not> looks_like_domain part"
    by (simp add: looks_like_domain_def)
  have m: "re_full domain_pattern (last [''out'', ''bundle.js''])"
    by (simp add: domain_pattern_def ascii_lower_def ascii_upper_def ascii_digit_def)
  from origin_from_filename [OF p [symmetric] d m] p d m show ?thesis by simp
qed

section \<open>CandidateFilter: the loops of \<open>extract_paths\<close>\<close>

text \<open>
  The class \<^verbatim>\<open>\w\<close> of a \<open>str\<close> pattern: the letters, digits and underscore of ASCII and
  the code points up to U+00FF that Unicode counts as alphanumeric.
\<close>

definition latin1_alnum :: "char \<Rightarrow> bool" where
  "latin1_alnum c =
     (let n = (of_char c :: nat) in
      n \<in> {0xAA, 0xB2, 0xB3, 0xB5, 0xB9, 0xBA, 0xBC, 0xBD, 0xBE}
      \<or> (0xC0 \<le> n \<and> n \<le> 0xD6) \<or> (0xD8 \<le> n \<and> n \<le> 0xF6) \<or> 0xF8 \<le> n)"

definition word_char :: "char \<Rightarrow> bool" where
  "word_char c =
     (ascii_lower c \<or> ascii_upper c \<or> ascii_digit c \<or> c = CHR ''_'' \<or> latin1_alnum c)"

text \<open>
  \<open>is_mime_type\<close> (lines 147 to 150): the pattern \<^verbatim>\<open>^[a-z]+/[a-z0-9\-\+\.]+$\<close> with
  \<open>re.IGNORECASE\<close>, under which \<open>[a-z]\<close> also takes the capital letters.
\<close>

definition mime_pattern :: "token list" where
  "mime_pattern =
     [Rep (\<lambda>c. ascii_lower c \<or> ascii_upper c) 1,
      Chr (\<lambda>c. c = CHR ''/''),
      Rep (\<lambda>c. ascii_lower c \<or> ascii_upper c \<or> ascii_digit c
                \<or> c = CHR ''-'' \<or> c = CHR ''+'' \<or> c = CHR ''.'') 1]"

definition is_mime_type :: "string \<Rightarrow> bool" where
  "is_mime_type text = re_match mime_pattern text"

text \<open>
  The list \<open>skip_patterns\<close> of lines 176 to 180, \<^verbatim>\<open>^[a-zA-Z]$\<close>, \<^verbatim>\<open>^[0-9]+$\<close> and,
  for a path shorter than three characters, \<^verbatim>\<open>^\w+$\<close> (\<open>None\<close> otherwise), and the loop
  over it (lines 182 to 186), which skips an entry that is \<open>None\<close>.
\<close>

definition skip_patterns :: "string \<Rightarrow> token list option list" where
  "skip_patterns path =
     [Some [Chr (\<lambda>c. ascii_lower c \<or> ascii_upper c)],
      Some [Rep ascii_digit 1],
      if length path < 3 then Some [Rep word_char 1] else None]"

fun skip_loop :: "token list option list \<Rightarrow> string \<Rightarrow> bool" where
  "skip_loop [] path = False"
| "skip_loop (pattern # rest) path =
     (case pattern of
        None \<Rightarrow> skip_loop rest path
      | Some p \<Rightarrow> if re_match p path then True else skip_loop rest path)"

definition should_skip :: "string \<Rightarrow> bool" where
  "should_skip path = skip_loop (skip_patterns path) path"

text \<open>
  The loop over the matches (lines 168 to 189), given the value of \<open>match.group(1)\<close> for
  each match in the order of the text: \<open>None\<close> and the empty string fail the test
  \<open>if path\<close>.
\<close>

fun filter_loop :: "string option list \<Rightarrow> string list \<Rightarrow> string list" where
  "filter_loop [] all_matches = all_matches"
| "filter_loop (g # rest) all_matches =
     (case g of
        None \<Rightarrow> filter_loop rest all_matches
      | Some path \<Rightarrow>
          if path = [] then filter_loop rest all_matches
          else if is_mime_type path then filter_loop rest all_matches
          else if \<not> should_skip path then filter_loop rest (all_matches @ [path])
          else filter_loop rest all_matches)"

text \<open>
  The loop that removes duplicates (lines 192 to 197), with the list \<open>unique_paths\<close> and
  the set \<open>seen\<close>.
\<close>

fun unique_loop :: "string list \<Rightarrow> string list \<Rightarrow> string set \<Rightarrow> string list" where
  "unique_loop [] unique_paths seen = unique_paths"
| "unique_loop (path # rest) unique_paths seen =
     (if path \<notin> seen then unique_loop rest (unique_paths @ [path]) (insert path seen)
      else unique_loop rest unique_paths seen)"

text \<open>
  Lines 168 to 199 as one function of the group values.
\<close>

definition candidate_filter :: "string option list \<Rightarrow> string list" where
  "candidate_filter raw = unique_loop (filter_loop raw []) [] {}"

section \<open>The extractor: \<open>extract_paths\<close>\<close>

text \<open>
  The exceptions that can leave \<open>extract_paths\<close>: \<open>re.error\<close> from \<open>re.compile\<close> and
  \<open>IndexError\<close> from \<open>match.group(1)\<close> when the pattern has no group 1.
\<close>

datatype error = ReError | IndexError

text \<open>
  The module \<open>re\<close> is a parameter: \<open>re_compile\<close> is \<open>re.compile(pattern, re.VERBOSE)\<close>,
  \<open>finditer\<close> gives the matches of a compiled pattern in a text, in the order of the text,
  and \<open>group1\<close> is \<open>match.group(1)\<close>, \<open>Inr None\<close> when the group took no part in the match.
\<close>

record ('r, 'm) re_module =
  re_compile :: "string \<Rightarrow> error + 'r"
  finditer :: "'r \<Rightarrow> string \<Rightarrow> 'm list"
  group1 :: "'m \<Rightarrow> error + string option"

text \<open>
  The constant \<open>PATH_REGEX\<close> (lines 27 to 52), a raw string; \<open>dq\<close>, \<open>sq\<close>, \<open>bs\<close> and \<open>nl\<close>
  are the double quote, the single quote, the backslash and the newline.
\<close>

definition dq :: string where "dq = [CHR 0x22]"
definition sq :: string where "sq = [CHR 0x27]"
definition bs :: string where "bs = [CHR 0x5C]"
definition nl :: string where "nl = [CHR 0x0A]"

definition PATH_REGEX :: string where
  "PATH_REGEX =
      nl
      @ ''    (?:'' @ dq @ ''|'' @ sq @ '')                                 # Opening quote'' @ nl
      @ ''    ('' @ nl
      @ ''        (?:[a-zA-Z]{1,10}://|//)            # Full URL with scheme'' @ nl
      @ ''        [^'' @ dq @ sq @ ''/]{1,}'' @ bs @ ''.'' @ nl
      @ ''        [a-zA-Z]{2,}[^'' @ dq @ sq @ '']{0,}'' @ nl
      @ ''        |'' @ nl
      @ ''        (?:/|'' @ bs @ ''.'' @ bs @ ''./|'' @ bs @ ''./)                     # Relative paths'' @ nl
      @ ''        [^'' @ dq @ sq @ ''><,;| *()(%%$^/'' @ bs @ bs @ bs @ ''['' @ bs @ '']]'' @ nl
      @ ''        [^'' @ dq @ sq @ ''><,;|()]{1,}'' @ nl
      @ ''        |'' @ nl
      @ ''        [a-zA-Z0-9_'' @ bs @ ''-/]{1,}/                # Endpoints with extensions'' @ nl
      @ ''        [a-zA-Z0-9_'' @ bs @ ''-/.]{1,}'' @ nl
      @ ''        '' @ bs @ ''.(?:[a-zA-Z]{1,4}|action)'' @ nl
      @ ''        (?:['' @ bs @ ''?|#][^'' @ dq @ ''|'' @ sq @ '']{0,}|)'' @ nl
      @ ''        |'' @ nl
      @ ''        [a-zA-Z0-9_'' @ bs @ ''-/]{1,}/                # REST API endpoints'' @ nl
      @ ''        [a-zA-Z0-9_'' @ bs @ ''-/]{3,}'' @ nl
      @ ''        (?:['' @ bs @ ''?|#][^'' @ dq @ ''|'' @ sq @ '']{0,}|)'' @ nl
      @ ''        |'' @ nl
      @ ''        [a-zA-Z0-9_'' @ bs @ ''-]{1,}                  # Filenames'' @ nl
      @ ''        '' @ bs @ ''.(?:php|asp|aspx|jsp|json|action|html|js|txt|xml)'' @ nl
      @ ''        (?:['' @ bs @ ''?|#][^'' @ dq @ ''|'' @ sq @ '']{0,}|)'' @ nl
      @ ''    )'' @ nl
      @ ''    (?:'' @ dq @ ''|'' @ sq @ '')                                 # Closing quote'' @ nl"

text \<open>
  Lines 156 to 162. \<open>beautify\<close> is \<open>jsbeautifier.beautify\<close>, \<open>None\<close> when it raises: the bare
  \<open>except\<close> keeps the content as it was.
\<close>

definition prepare_content :: "(string \<Rightarrow> string option) \<Rightarrow> string \<Rightarrow> string" where
  "prepare_content beautify content =
     (if length content > 1000000
      then replace_char (replace_char content CHR '';'' ('';'' @ nl)) CHR '','' ('','' @ nl)
      else (case beautify content of
              Some beautified \<Rightarrow> beautified
            | None \<Rightarrow> content))"

text \<open>
  The pattern compiled at line 165: the custom one unless it is \<open>None\<close> or empty.
\<close>

definition effective_pattern :: "string option \<Rightarrow> string" where
  "effective_pattern custom_regex =
     (case custom_regex of
        None \<Rightarrow> PATH_REGEX
      | Some p \<Rightarrow> if p \<noteq> [] then p else PATH_REGEX)"

text \<open>
  \<open>match.group(1)\<close> for every match, in order; the first exception ends the call. The
  source takes the group at the head of each turn of the loop of lines 168 to 189; the
  turns have no other effect than the list they build, so the groups are taken first here.
\<close>

fun group_loop :: "('m \<Rightarrow> error + string option) \<Rightarrow> 'm list \<Rightarrow> error + string option list" where
  "group_loop g [] = Inr []"
| "group_loop g (m # ms) =
     (case g m of
        Inl e \<Rightarrow> Inl e
      | Inr path \<Rightarrow>
          (case group_loop g ms of
             Inl e \<Rightarrow> Inl e
           | Inr paths \<Rightarrow> Inr (path # paths)))"

definition extract_paths ::
  "('r, 'm) re_module \<Rightarrow> (string \<Rightarrow> string option) \<Rightarrow> string \<Rightarrow> string option
     \<Rightarrow> error + string list" where
  "extract_paths re beautify content custom_regex =
     (let content' = prepare_content beautify content in
      case re_compile re (effective_pattern custom_regex) of
        Inl e \<Rightarrow> Inl e
      | Inr regex \<Rightarrow>
          (case group_loop (group1 re) (finditer re regex content') of
             Inl e \<Rightarrow> Inl e
           | Inr raw \<Rightarrow> Inr (candidate_filter raw)))"

text \<open>
  What the rejection rules let through, the texts of the groups, the first occurrences
  of a list, and the index of the first occurrence of an element.
\<close>

definition accepted :: "string \<Rightarrow> bool" where
  "accepted path = (path \<noteq> [] \<and> \<not> is_mime_type path \<and> \<not> should_skip path)"

fun texts :: "string option list \<Rightarrow> string list" where
  "texts [] = []"
| "texts (None # rest) = texts rest"
| "texts (Some path # rest) = path # texts rest"

fun first_occurrences :: "'a list \<Rightarrow> 'a list" where
  "first_occurrences [] = []"
| "first_occurrences (x # xs) = x # filter (\<lambda>y. y \<noteq> x) (first_occurrences xs)"

definition first_index :: "'a list \<Rightarrow> 'a \<Rightarrow> nat" where
  "first_index xs x = length (takeWhile (\<lambda>y. y \<noteq> x) xs)"

text \<open>
  A fragment of \<open>re\<close> for examples, on three patterns as Python treats them: \<open>(\<close> does not
  compile; \<open>a\<close> matches each letter a and has no group; \<open>quoted_pattern\<close>, a double quote,
  \<^verbatim>\<open>([^"]*)\<close> and a double quote, matches each text between two double quotes, which is
  its group 1. Any other pattern is refused.
\<close>

fun odd_parts :: "string list \<Rightarrow> string list" where
  "odd_parts (before # inside # after # rest) = inside # odd_parts (after # rest)"
| "odd_parts parts = []"

definition quoted_pattern :: string where
  "quoted_pattern = dq @ ''([^'' @ dq @ '']*)'' @ dq"

definition sample_re :: "(string, string \<times> string) re_module" where
  "sample_re =
     \<lparr> re_compile = (\<lambda>p. if p = ''a'' \<or> p = quoted_pattern then Inr p else Inl ReError),
       finditer = (\<lambda>regex s.
         if regex = ''a'' then map (\<lambda>c. (regex, [c])) (filter (\<lambda>c. c = CHR ''a'') s)
         else map (\<lambda>text. (regex, text)) (odd_parts (split s (CHR 0x22)))),
       group1 = (\<lambda>(regex, text). if regex = ''a'' then Inl IndexError else Inr (Some text)) \<rparr>"

definition sample_js :: string where
  "sample_js = ''f('' @ dq @ ''./a'' @ dq @ '', '' @ dq @ ''a'' @ dq @ '', '' @ dq @ ''./a''
                 @ dq @ '', '' @ dq @ ''/api/x'' @ dq @ '')''"

lemma path_regex_length: "length PATH_REGEX = 846"
  by (simp add: PATH_REGEX_def dq_def sq_def bs_def nl_def)

lemma filter_loop_eq: "filter_loop raw acc = acc @ filter accepted (texts raw)"
proof (induction raw arbitrary: acc)
  case Nil
  then show ?case by simp
next
  case (Cons g raw)
  then show ?case by (cases g) (simp_all add: accepted_def)
qed

lemma unique_loop_eq:
  "seen = set acc \<Longrightarrow>
   unique_loop ys acc seen = acc @ filter (\<lambda>y. y \<notin> set acc) (first_occurrences ys)"
proof (induction ys arbitrary: acc seen)
  case Nil
  then show ?case by simp
next
  case (Cons y ys)
  show ?case
  proof (cases "y \<in> seen")
    case True
    have "filter (\<lambda>z. z \<notin> set acc) (filter (\<lambda>z. z \<noteq> y) (first_occurrences ys))
          = filter (\<lambda>z. z \<notin> set acc) (first_occurrences ys)"
      using True Cons.prems by (auto intro: filter_cong)
    with True Cons show ?thesis by simp
  next
    case False
    have "filter (\<lambda>z. z \<notin> set (acc @ [y])) (first_occurrences ys)
          = filter (\<lambda>z. z \<notin> set acc) (filter (\<lambda>z. z \<noteq> y) (first_occurrences ys))"
      by (auto intro: filter_cong)
    moreover have "unique_loop ys (acc @ [y]) (insert y seen)
          = (acc @ [y]) @ filter (\<lambda>z. z \<notin> set (acc @ [y])) (first_occurrences ys)"
      using Cons.prems by (intro Cons.IH) simp
    ultimately show ?thesis using False Cons.prems by simp
  qed
qed

lemma candidate_filter_eq:
  "candidate_filter raw = first_occurrences (filter accepted (texts raw))"
  by (simp add: candidate_filter_def filter_loop_eq unique_loop_eq)

lemma set_first_occurrences: "set (first_occurrences xs) = set xs"
  by (induction xs) auto

lemma distinct_first_occurrences: "distinct (first_occurrences xs)"
  by (induction xs) (auto simp: set_first_occurrences)

lemma length_first_occurrences: "length (first_occurrences xs) \<le> length xs"
proof (induction xs)
  case Nil
  then show ?case by simp
next
  case (Cons x xs)
  have "length (filter (\<lambda>y. y \<noteq> x) (first_occurrences xs)) \<le> length (first_occurrences xs)"
    by (rule length_filter_le)
  with Cons have "length (filter (\<lambda>y. y \<noteq> x) (first_occurrences xs)) \<le> length xs"
    by linarith
  then show ?case by simp
qed

lemma first_occurrences_distinct: "distinct xs \<Longrightarrow> first_occurrences xs = xs"
proof (induction xs)
  case Nil
  then show ?case by simp
next
  case (Cons x xs)
  then have "filter (\<lambda>y. y \<noteq> x) xs = xs" by (auto intro: filter_True)
  with Cons show ?case by simp
qed

lemma length_texts: "length (texts raw) \<le> length raw"
  by (induction raw rule: texts.induct) auto

lemma set_texts: "set (texts raw) = {p. Some p \<in> set raw}"
  by (induction raw rule: texts.induct) auto

lemma texts_map_Some: "texts (map Some ps) = ps"
  by (induction ps) auto

lemma set_candidate_filter: "set (candidate_filter raw) = {p. Some p \<in> set raw \<and> accepted p}"
  by (auto simp: candidate_filter_eq set_first_occurrences set_texts)

lemma first_index_Cons:
  "first_index (x # xs) y = (if y = x then 0 else Suc (first_index xs y))"
  by (simp add: first_index_def)

lemma candidate_filter_Cons:
  "candidate_filter (g # raw) =
     (case g of
        None \<Rightarrow> candidate_filter raw
      | Some p \<Rightarrow> if accepted p then p # filter (\<lambda>y. y \<noteq> p) (candidate_filter raw)
                  else candidate_filter raw)"
  by (cases g) (simp_all add: candidate_filter_eq)

lemma candidate_filter_sorted:
  "sorted_wrt (\<lambda>p q. first_index raw (Some p) < first_index raw (Some q)) (candidate_filter raw)"
proof (induction raw)
  case Nil
  then show ?case by (simp add: candidate_filter_eq)
next
  case (Cons g raw)
  let ?R = "\<lambda>p q. first_index raw (Some p) < first_index raw (Some q)"
  let ?R' = "\<lambda>p q. first_index (g # raw) (Some p) < first_index (g # raw) (Some q)"
  have shift: "sorted_wrt ?R' ps" if "sorted_wrt ?R ps" and "\<forall>p \<in> set ps. Some p \<noteq> g" for ps
    using that
    by (intro sorted_wrt_mono_rel [of ps ?R ?R']) (auto simp: first_index_Cons)
  show ?case
  proof (cases "\<exists>p. g = Some p \<and> accepted p")
    case True
    then obtain p where g: "g = Some p" and acc: "accepted p" by blast
    let ?rest = "filter (\<lambda>y. y \<noteq> p) (candidate_filter raw)"
    have "sorted_wrt ?R ?rest" using Cons.IH by (rule sorted_wrt_filter)
    then have "sorted_wrt ?R' ?rest" by (rule shift) (simp add: g)
    moreover have "\<forall>q \<in> set ?rest. ?R' p q" by (simp add: g first_index_Cons)
    ultimately show ?thesis using g acc by (simp add: candidate_filter_Cons)
  next
    case False
    then have eq: "candidate_filter (g # raw) = candidate_filter raw"
      by (cases g) (auto simp: candidate_filter_Cons)
    have "\<forall>p \<in> set (candidate_filter raw). Some p \<noteq> g"
      using False by (auto simp: set_candidate_filter)
    with Cons.IH have "sorted_wrt ?R' (candidate_filter raw)" by (rule shift)
    with eq show ?thesis by simp
  qed
qed

lemma group_loop_Inr:
  "(\<forall>m \<in> set ms. \<exists>path. g m = Inr path) \<Longrightarrow> \<exists>raw. group_loop g ms = Inr raw \<and> length raw = length ms"
proof (induction ms)
  case Nil
  then show ?case by simp
next
  case (Cons m ms)
  then obtain path raw where "g m = Inr path" and "group_loop g ms = Inr raw"
    and "length raw = length ms" by auto
  then show ?case by simp
qed

lemma group_loop_Inl:
  "m \<in> set ms \<Longrightarrow> g m = Inl e \<Longrightarrow> \<exists>e'. group_loop g ms = Inl e'"
proof (induction ms)
  case Nil
  then show ?case by simp
next
  case (Cons x xs)
  then show ?case by (cases "g x"; cases "group_loop g xs") auto
qed

lemma group_loop_length: "group_loop g ms = Inr raw \<Longrightarrow> length raw = length ms"
proof (induction ms arbitrary: raw)
  case Nil
  then show ?case by simp
next
  case (Cons m ms)
  then show ?case by (auto split: sum.splits)
qed

lemma extract_paths_Inr:
  assumes "extract_paths re beautify content custom_regex = Inr paths"
  shows "\<exists>regex raw. re_compile re (effective_pattern custom_regex) = Inr regex
           \<and> group_loop (group1 re) (finditer re regex (prepare_content beautify content)) = Inr raw
           \<and> length raw = length (finditer re regex (prepare_content beautify content))
           \<and> paths = candidate_filter raw"
  using assms group_loop_length
  by (fastforce simp: extract_paths_def Let_def split: sum.splits)

lemmas filter_eval = candidate_filter_def is_mime_type_def should_skip_def skip_patterns_def
  mime_pattern_def re_match_def word_char_def latin1_alnum_def
  ascii_lower_def ascii_upper_def ascii_digit_def

lemma candidate_filter_example:
  "candidate_filter [Some ''./a'', Some ''audio/ogg'', Some ''a'', Some ''12'', None,
                     Some ''/api'', Some ''./a'', Some ''ab'', Some ''a.b'', Some []]
     = [''./a'', ''/api'', ''a.b'']"
  by (simp add: filter_eval)

lemma sample_groups:
  "finditer sample_re quoted_pattern (prepare_content Some sample_js)
     = map (\<lambda>text. (quoted_pattern, text)) [''./a'', ''a'', ''./a'', ''/api/x'']"
  by (simp add: sample_re_def prepare_content_def sample_js_def quoted_pattern_def dq_def)

lemma sample_group_loop:
  "group_loop (group1 sample_re) (finditer sample_re quoted_pattern (prepare_content Some sample_js))
     = Inr [Some ''./a'', Some ''a'', Some ''./a'', Some ''/api/x'']"
  unfolding sample_groups by (simp add: sample_re_def quoted_pattern_def dq_def)

lemma sample_compile:
  "re_compile sample_re (effective_pattern (Some quoted_pattern)) = Inr quoted_pattern"
  by (simp add: effective_pattern_def sample_re_def quoted_pattern_def dq_def)

lemma sample_filter:
  "candidate_filter [Some ''./a'', Some ''a'', Some ''./a'', Some ''/api/x''] = [''./a'', ''/api/x'']"
  by (simp add: filter_eval)

section \<open>Properties of the candidate filter and the extractor\<close>

text \<open>
  Claim C5: the list that filtering and deduplication give has no two equal elements, is
  at most as long as the list of raw matches, holds exactly the accepted texts, and lists
  them in the order of their first occurrence among the matches; and the list
  \<open>extract_paths\<close> returns for a text is this list for the groups of the matches of the
  pattern in the text.
\<close>

theorem candidate_filter_unique_ordered:
  "distinct (candidate_filter raw)
   \<and> length (candidate_filter raw) \<le> length raw
   \<and> set (candidate_filter raw) = {p. Some p \<in> set raw \<and> accepted p}
   \<and> sorted_wrt (\<lambda>p q. first_index raw (Some p) < first_index raw (Some q)) (candidate_filter raw)
   \<and> (extract_paths re beautify content custom_regex = Inr paths \<longrightarrow>
        (\<exists>regex groups.
           re_compile re (effective_pattern custom_regex) = Inr regex
           \<and> group_loop (group1 re) (finditer re regex (prepare_content beautify content)) = Inr groups
           \<and> length groups = length (finditer re regex (prepare_content beautify content))
           \<and> paths = candidate_filter groups))"
proof -
  have "length (candidate_filter raw) \<le> length (filter accepted (texts raw))"
    unfolding candidate_filter_eq by (rule length_first_occurrences)
  also have "\<dots> \<le> length (texts raw)" by (rule length_filter_le)
  also have "\<dots> \<le> length raw" by (rule length_texts)
  finally have "length (candidate_filter raw) \<le> length raw" .
  moreover have "distinct (candidate_filter raw)"
    unfolding candidate_filter_eq by (rule distinct_first_occurrences)
  ultimately show ?thesis
    using set_candidate_filter [of raw] candidate_filter_sorted [of raw]
      extract_paths_Inr [of re beautify content custom_regex paths]
    by blast
qed

theorem candidate_filter_unique_ordered_witness:
  "extract_paths sample_re Some sample_js (Some quoted_pattern) = Inr [''./a'', ''/api/x'']
   \<and> length (finditer sample_re quoted_pattern (prepare_content Some sample_js)) = 4
   \<and> distinct [''./a'', ''/api/x'']
   \<and> first_index [Some ''./a'', Some ''a'', Some ''./a'', Some ''/api/x''] (Some ''./a'') = 0
   \<and> first_index [Some ''./a'', Some ''a'', Some ''./a'', Some ''/api/x''] (Some ''/api/x'') = 3"
proof -
  have e: "extract_paths sample_re Some sample_js (Some quoted_pattern) = Inr [''./a'', ''/api/x'']"
    using sample_compile sample_group_loop sample_filter
    by (simp add: extract_paths_def)
  from candidate_filter_unique_ordered [of "[Some ''./a'', Some ''a'', Some ''./a'', Some ''/api/x'']"
      sample_re Some sample_js "Some quoted_pattern" "[''./a'', ''/api/x'']"] e
  have "distinct (candidate_filter [Some ''./a'', Some ''a'', Some ''./a'', Some ''/api/x''])"
    by blast
  then have "distinct [''./a'', ''/api/x'']" by (simp only: sample_filter)
  with e show ?thesis
    by (simp add: sample_groups first_index_def)
qed

text \<open>
  Claim C6: the filter is idempotent: the rejection rules and the deduplication, applied
  to a list the filter has returned, give the same list.
\<close>

theorem candidate_filter_idempotent:
  "candidate_filter (map Some (candidate_filter raw)) = candidate_filter raw"
proof -
  let ?out = "candidate_filter raw"
  have "filter accepted ?out = ?out"
    by (rule filter_True) (simp add: set_candidate_filter)
  moreover have "first_occurrences ?out = ?out"
    by (rule first_occurrences_distinct)
       (simp add: candidate_filter_eq distinct_first_occurrences)
  ultimately show ?thesis
    by (simp add: candidate_filter_eq [of "map Some ?out"] texts_map_Some)
qed

text \<open>
  Claim C8, as stated: a pattern that does not compile makes the extraction fail, and
  the extraction with a pattern that compiles does not raise. The second part fails for
  the pattern \<open>a\<close>, which compiles and has no group 1: on the text \<open>a\<close>, \<open>match.group(1)\<close>
  raises \<open>IndexError\<close>.
\<close>

theorem extract_paths_groupless_pattern_counterexample:
  "re_compile sample_re (effective_pattern (Some ''a'')) = Inr ''a''
   \<and> extract_paths sample_re (\<lambda>content. Some content) ''a'' (Some ''a'') = Inl IndexError"
  by (simp add: extract_paths_def effective_pattern_def prepare_content_def sample_re_def)

text \<open>
  Claim C8, amended: a pattern that does not compile makes the extraction fail with the
  error of \<open>re.compile\<close>, and no list is returned; with a pattern that compiles and whose
  every match has a group 1, the extraction returns the filtered list of the groups.
\<close>

theorem extract_paths_error_or_result:
  "(re_compile re (effective_pattern custom_regex) = Inl e
      \<longrightarrow> extract_paths re beautify content custom_regex = Inl e)
   \<and> (re_compile re (effective_pattern custom_regex) = Inr regex
       \<and> (\<forall>m \<in> set (finditer re regex (prepare_content beautify content)).
             \<exists>path. group1 re m = Inr path)
      \<longrightarrow> (\<exists>raw. group_loop (group1 re) (finditer re regex (prepare_content beautify content)) = Inr raw
              \<and> extract_paths re beautify content custom_regex = Inr (candidate_filter raw)))"
proof (intro conjI impI)
  assume "re_compile re (effective_pattern custom_regex) = Inl e"
  then show "extract_paths re beautify content custom_regex = Inl e"
    by (simp add: extract_paths_def)
next
  let ?ms = "finditer re regex (prepare_content beautify content)"
  assume a: "re_compile re (effective_pattern custom_regex) = Inr regex
    \<and> (\<forall>m \<in> set ?ms. \<exists>path. group1 re m = Inr path)"
  then obtain raw where "group_loop (group1 re) ?ms = Inr raw"
    using group_loop_Inr [of ?ms "group1 re"] by blast
  with a show "\<exists>raw. group_loop (group1 re) ?ms = Inr raw
      \<and> extract_paths re beautify content custom_regex = Inr (candidate_filter raw)"
    by (simp add: extract_paths_def)
qed

theorem extract_paths_error_or_result_witness:
  "re_compile sample_re (effective_pattern (Some ''('')) = Inl ReError
   \<and> extract_paths sample_re Some sample_js (Some ''('') = Inl ReError
   \<and> re_compile sample_re (effective_pattern (Some quoted_pattern)) = Inr quoted_pattern
   \<and> extract_paths sample_re Some sample_js (Some quoted_pattern) = Inr [''./a'', ''/api/x'']"
proof -
  have c1: "re_compile sample_re (effective_pattern (Some ''('')) = Inl ReError"
    by (simp add: effective_pattern_def sample_re_def quoted_pattern_def dq_def)
  have g: "\<forall>m \<in> set (finditer sample_re quoted_pattern (prepare_content Some sample_js)).
             \<exists>path. group1 sample_re m = Inr path"
    unfolding sample_groups by (simp add: sample_re_def quoted_pattern_def dq_def)
  from extract_paths_error_or_result [of sample_re "Some ''(''" ReError Some sample_js] c1
  have r1: "extract_paths sample_re Some sample_js (Some ''('') = Inl ReError"
    by blast
  from extract_paths_error_or_result [of sample_re "Some quoted_pattern" _ Some sample_js quoted_pattern] sample_compile g
  obtain raw where
    "group_loop (group1 sample_re)
       (finditer sample_re quoted_pattern (prepare_content Some sample_js)) = Inr raw"
    and "extract_paths sample_re Some sample_js (Some quoted_pattern) = Inr (candidate_filter raw)"
    by blast
  with sample_group_loop sample_filter
  have r2: "extract_paths sample_re Some sample_js (Some quoted_pattern) = Inr [''./a'', ''/api/x'']"
    by simp
  from c1 r1 sample_compile r2 show ?thesis by simp
qed

end
